theory Spec2Isabelle
  imports Main
begin

section \<open>Data model of App.js\<close>

text \<open>
  A square of the board holds the string \<^verbatim>\<open>'X'\<close>, the string \<^verbatim>\<open>'O'\<close> or \<^verbatim>\<open>null\<close>.
  Reading a JavaScript array outside its length, or at a hole that a write beyond the
  length has left, yields \<^verbatim>\<open>undefined\<close>; this is the fourth value of a cell.
  The two strings are the constructors \<open>MarkX\<close> and \<open>MarkO\<close> (the name \<open>O\<close> is
  taken by relation composition).
\<close>

datatype mark = MarkX | MarkO

datatype cell = Null | Undefined | Str mark

text \<open>The object \<^verbatim>\<open>{ winner, line }\<close> returned by \<^verbatim>\<open>calculateWinner\<close>.\<close>

record winnerInfo =
  winner :: cell
  line :: "nat list"

text \<open>One entry \<^verbatim>\<open>{ squares, lastMove }\<close> of the history; \<open>None\<close> is \<^verbatim>\<open>lastMove: null\<close>.\<close>

record snapshot =
  squares :: "cell list"
  lastMove :: "nat option"

text \<open>The two \<^verbatim>\<open>useState\<close> cells of the component \<^verbatim>\<open>App\<close>.\<close>

record state =
  history :: "snapshot list"
  currentStep :: nat

text \<open>
  The only failure of the component: \<^verbatim>\<open>current.squares\<close> when
  \<^verbatim>\<open>history[currentStep]\<close> is \<^verbatim>\<open>undefined\<close>.
\<close>

datatype error = TypeError

section \<open>JavaScript primitives used by the component\<close>

text \<open>Truthiness, as tested by \<^verbatim>\<open>if (v)\<close>, \<^verbatim>\<open>v && ...\<close> and \<^verbatim>\<open>!v\<close>.\<close>

fun truthy :: "cell \<Rightarrow> bool" where
  "truthy Null = False"
| "truthy Undefined = False"
| "truthy (Str m) = True"

text \<open>\<^verbatim>\<open>squares[i]\<close>: an index outside the array reads \<^verbatim>\<open>undefined\<close>.\<close>

definition js_get :: "cell list \<Rightarrow> nat \<Rightarrow> cell" where
  "js_get xs i = (if i < length xs then xs ! i else Undefined)"

text \<open>
  \<^verbatim>\<open>squares[i] = v\<close>. The array indices are the integers from 0 to
  \<open>2\<^sup>3\<^sup>2 - 2 = 4294967294\<close>. A write at an index beyond the length extends the array,
  leaving holes (which read \<^verbatim>\<open>undefined\<close>) between the old end and the new element.
  A write at a larger number is not a write to an element: JavaScript stores a property
  under that key, and the elements and the length of the array stay as they are. The
  list holds the elements only; such a property is not represented in it.
\<close>

definition js_set :: "cell list \<Rightarrow> nat \<Rightarrow> cell \<Rightarrow> cell list" where
  "js_set xs i v =
     (if i < length xs then xs[i := v]
      else if i \<le> 4294967294 then xs @ replicate (i - length xs) Undefined @ [v]
      else xs)"

text \<open>The template literal \<^verbatim>\<open>${v}\<close>.\<close>

fun to_string :: "cell \<Rightarrow> string" where
  "to_string Null = ''null''"
| "to_string Undefined = ''undefined''"
| "to_string (Str MarkX) = ''X''"
| "to_string (Str MarkO) = ''O''"

section \<open>calculateWinner\<close>

definition lines :: "(nat \<times> nat \<times> nat) list" where
  "lines =
     [(0, 1, 2), (3, 4, 5), (6, 7, 8),
      (0, 3, 6), (1, 4, 7), (2, 5, 8),
      (0, 4, 8), (2, 4, 6)]"

text \<open>The \<^verbatim>\<open>for (const [a, b, c] of lines)\<close> loop, with its early return.\<close>

fun scan_lines :: "cell list \<Rightarrow> (nat \<times> nat \<times> nat) list \<Rightarrow> winnerInfo option" where
  "scan_lines sq [] = None"
| "scan_lines sq ((a, b, c) # rest) =
     (if truthy (js_get sq a) \<and> js_get sq a = js_get sq b \<and> js_get sq a = js_get sq c
      then Some \<lparr>winner = js_get sq a, line = [a, b, c]\<rparr>
      else scan_lines sq rest)"

definition calculateWinner :: "cell list \<Rightarrow> winnerInfo option" where
  "calculateWinner sq = scan_lines sq lines"

section \<open>The component App: derived values and handlers\<close>

text \<open>\<^verbatim>\<open>Array(9).fill(null)\<close> and the initial value of both state cells.\<close>

definition initial :: state where
  "initial = \<lparr>history = [\<lparr>squares = replicate 9 Null, lastMove = None\<rparr>], currentStep = 0\<rparr>"

text \<open>\<^verbatim>\<open>history[currentStep]\<close>; \<open>None\<close> stands for \<^verbatim>\<open>undefined\<close>.\<close>

definition current :: "state \<Rightarrow> snapshot option" where
  "current s =
     (if currentStep s < length (history s) then Some (history s ! currentStep s) else None)"

definition xIsNext :: "state \<Rightarrow> bool" where
  "xIsNext s = (currentStep s mod 2 = 0)"

text \<open>
  \<^verbatim>\<open>winner = winnerInfo ? winnerInfo.winner : null\<close> and
  \<^verbatim>\<open>isDraw = !winner && current.squares.every((s) => s !== null)\<close>, as functions of the
  current snapshot. (\<^verbatim>\<open>every\<close> skips holes, and \<^verbatim>\<open>undefined !== null\<close> holds, so an
  \<open>Undefined\<close> cell passes the test either way.)
\<close>

definition winner_of :: "snapshot \<Rightarrow> cell" where
  "winner_of cur = (case calculateWinner (squares cur) of Some w \<Rightarrow> winner w | None \<Rightarrow> Null)"

definition winningLine :: "snapshot \<Rightarrow> nat list option" where
  "winningLine cur = (case calculateWinner (squares cur) of Some w \<Rightarrow> Some (line w) | None \<Rightarrow> None)"

definition isDraw :: "snapshot \<Rightarrow> bool" where
  "isDraw cur = (\<not> truthy (winner_of cur) \<and> list_all (\<lambda>c. c \<noteq> Null) (squares cur))"

text \<open>
  The handlers are closures of one render of the component. A render in which
  \<^verbatim>\<open>history[currentStep]\<close> is \<^verbatim>\<open>undefined\<close> throws at \<^verbatim>\<open>current.squares\<close>; the
  operations that read \<^verbatim>\<open>current\<close> report this as \<open>Inl TypeError\<close>. The two setters
  called by a handler take effect together, so a handler maps a state to the next one.
  The arguments \<open>index\<close> and \<open>step\<close> range over the natural numbers, the non-negative
  integers among JavaScript's numbers; negative and fractional arguments are not modelled.
\<close>

definition handleSquareClick :: "state \<Rightarrow> nat \<Rightarrow> error + state" where
  "handleSquareClick s index =
     (case current s of
        None \<Rightarrow> Inl TypeError
      | Some cur \<Rightarrow>
          if truthy (winner_of cur) \<or> truthy (js_get (squares cur) index) then Inr s
          else
            let nextSquares = js_set (squares cur) index (Str (if xIsNext s then MarkX else MarkO));
                truncatedHistory = take (currentStep s + 1) (history s)
            in Inr \<lparr>history = truncatedHistory @ [\<lparr>squares = nextSquares, lastMove = Some index\<rparr>],
                    currentStep = length truncatedHistory\<rparr>)"

definition jumpTo :: "state \<Rightarrow> nat \<Rightarrow> state" where
  "jumpTo s step = s\<lparr>currentStep := step\<rparr>"

definition restart :: "state \<Rightarrow> state" where
  "restart s = \<lparr>history = [\<lparr>squares = replicate 9 Null, lastMove = None\<rparr>], currentStep = 0\<rparr>"

definition statusText :: "state \<Rightarrow> error + string" where
  "statusText s =
     (case current s of
        None \<Rightarrow> Inl TypeError
      | Some cur \<Rightarrow>
          if truthy (winner_of cur) then Inr (''Winner: '' @ to_string (winner_of cur))
          else if isDraw cur then Inr ''Draw! No moves left.''
          else Inr (''Next Player: '' @ (if xIsNext s then ''X'' else ''O'')))"

section \<open>Sequences of intents from the view\<close>

text \<open>
  The view offers nine squares, calling \<^verbatim>\<open>handleSquareClick(i)\<close> with \<open>i\<close> from 0 to 8,
  one button per entry of the history, calling \<^verbatim>\<open>jumpTo(step)\<close> with
  \<open>step < history.length\<close>, and the restart button. \<open>dispatch\<close> performs one such
  intent and is \<open>None\<close> for an argument the view cannot supply or when the handler
  fails; \<open>run\<close> performs a sequence of them. A state is reachable when
  \<open>run initial its\<close> returns it for some \<open>its\<close>.
\<close>

datatype intent = PlaceMark nat | JumpTo nat | Restart

fun dispatch :: "state \<Rightarrow> intent \<Rightarrow> state option" where
  "dispatch s (PlaceMark i) =
     (if i < 9 then (case handleSquareClick s i of Inl e \<Rightarrow> None | Inr s' \<Rightarrow> Some s') else None)"
| "dispatch s (JumpTo k) = (if k < length (history s) then Some (jumpTo s k) else None)"
| "dispatch s Restart = Some (restart s)"

fun run :: "state \<Rightarrow> intent list \<Rightarrow> state option" where
  "run s [] = Some s"
| "run s (it # its) = (case dispatch s it of None \<Rightarrow> None | Some s' \<Rightarrow> run s' its)"

section \<open>Vocabulary of the specification\<close>

text \<open>A triple is complete on a board when its three cells hold the same mark.\<close>

definition complete_line :: "cell list \<Rightarrow> nat \<times> nat \<times> nat \<Rightarrow> bool" where
  "complete_line sq t =
     (case t of (a, b, c) \<Rightarrow>
        (sq ! a = Str MarkX \<and> sq ! b = Str MarkX \<and> sq ! c = Str MarkX) \<or>
        (sq ! a = Str MarkO \<and> sq ! b = Str MarkO \<and> sq ! c = Str MarkO))"

text \<open>The turn owner: X when the cursor is even, O when it is odd.\<close>

definition turn_owner :: "state \<Rightarrow> mark" where
  "turn_owner s = (if even (currentStep s) then MarkX else MarkO)"

text \<open>A board of the data model: nine cells, each \<^verbatim>\<open>null\<close> or a mark.\<close>

definition wf_board :: "cell list \<Rightarrow> bool" where
  "wf_board b = (length b = 9 \<and> list_all (\<lambda>c. c \<noteq> Undefined) b)"

text \<open>All nine cells of a board are non-empty.\<close>

definition board_full :: "cell list \<Rightarrow> bool" where
  "board_full b = list_all (\<lambda>i. truthy (b ! i)) [0 ..< 9]"

text \<open>The cursor addresses a snapshot, and every stored board has exactly nine cells.\<close>

definition cursor_ok :: "state \<Rightarrow> bool" where
  "cursor_ok s = (currentStep s < length (history s))"


definition wf_state :: "state \<Rightarrow> bool" where
  "wf_state s = (cursor_ok s \<and> list_all (\<lambda>sn. wf_board (squares sn)) (history s))"

text \<open>
  \<open>one_move prev nxt\<close>: the board of \<open>nxt\<close> is the board of \<open>prev\<close> except at the index
  \<open>lastMove nxt\<close>, where an empty cell has become a mark.
\<close>

definition one_move :: "snapshot \<Rightarrow> snapshot \<Rightarrow> bool" where
  "one_move prev nxt =
     (case lastMove nxt of
        None \<Rightarrow> False
      | Some j \<Rightarrow>
          j < length (squares prev) \<and> squares prev ! j = Null \<and>
          (squares nxt = (squares prev)[j := Str MarkX] \<or>
           squares nxt = (squares prev)[j := Str MarkO]))"

definition history_chain :: "snapshot list \<Rightarrow> bool" where
  "history_chain h =
     (h \<noteq> [] \<and> h ! 0 = \<lparr>squares = replicate 9 Null, lastMove = None\<rparr> \<and>
      list_all (\<lambda>i. one_move (h ! (i - 1)) (h ! i)) [1 ..< length h])"

text \<open>Counting the cells of a board that hold a given mark, or any mark.\<close>

definition count_mark :: "mark \<Rightarrow> cell list \<Rightarrow> nat" where
  "count_mark m b = length (filter (\<lambda>c. c = Str m) b)"

definition count_filled :: "cell list \<Rightarrow> nat" where
  "count_filled b = length (filter truthy b)"

definition balanced :: "snapshot list \<Rightarrow> bool" where
  "balanced h =
     list_all (\<lambda>k. count_mark MarkX (squares (h ! k)) = (k + 1) div 2 \<and>
                   count_mark MarkO (squares (h ! k)) = k div 2) [0 ..< length h]"

section \<open>Example states\<close>

text \<open>
  After X at 0 and O at 4, with the cursor moved back to step 1; and after
  X at 0, O at 4, X at 1, O at 5, X at 2, where X has completed the top row.
\<close>

definition example_mid :: state where
  "example_mid =
     \<lparr>history =
        [\<lparr>squares = [Null, Null, Null, Null, Null, Null, Null, Null, Null], lastMove = None\<rparr>,
         \<lparr>squares = [Str MarkX, Null, Null, Null, Null, Null, Null, Null, Null], lastMove = Some 0\<rparr>,
         \<lparr>squares = [Str MarkX, Null, Null, Null, Str MarkO, Null, Null, Null, Null], lastMove = Some 4\<rparr>],
      currentStep = 1\<rparr>"

definition example_won :: state where
  "example_won =
     \<lparr>history =
        [\<lparr>squares = [Null, Null, Null, Null, Null, Null, Null, Null, Null], lastMove = None\<rparr>,
         \<lparr>squares = [Str MarkX, Null, Null, Null, Null, Null, Null, Null, Null], lastMove = Some 0\<rparr>,
         \<lparr>squares = [Str MarkX, Null, Null, Null, Str MarkO, Null, Null, Null, Null], lastMove = Some 4\<rparr>,
         \<lparr>squares = [Str MarkX, Str MarkX, Null, Null, Str MarkO, Null, Null, Null, Null], lastMove = Some 1\<rparr>,
         \<lparr>squares = [Str MarkX, Str MarkX, Null, Null, Str MarkO, Str MarkO, Null, Null, Null], lastMove = Some 5\<rparr>,
         \<lparr>squares = [Str MarkX, Str MarkX, Str MarkX, Null, Str MarkO, Str MarkO, Null, Null, Null], lastMove = Some 2\<rparr>],
      currentStep = 5\<rparr>"

text \<open>After X at 0, O at 4, a jump back to step 1 and O at 8: the O at 4 is gone.\<close>

definition example_branch :: state where
  "example_branch =
     \<lparr>history =
        [\<lparr>squares = [Null, Null, Null, Null, Null, Null, Null, Null, Null], lastMove = None\<rparr>,
         \<lparr>squares = [Str MarkX, Null, Null, Null, Null, Null, Null, Null, Null], lastMove = Some 0\<rparr>,
         \<lparr>squares = [Str MarkX, Null, Null, Null, Null, Null, Null, Null, Str MarkO], lastMove = Some 8\<rparr>],
      currentStep = 2\<rparr>"

section \<open>Basic facts about the primitives\<close>

lemmas eval_defs = handleSquareClick_def current_def winner_of_def isDraw_def calculateWinner_def
  lines_def js_get_def js_set_def xIsNext_def jumpTo_def restart_def statusText_def initial_def
  Let_def

lemma truthy_iff: "truthy c \<longleftrightarrow> c = Str MarkX \<or> c = Str MarkO"
proof (cases c)
  case (Str m)
  then show ?thesis by (cases m) simp_all
qed simp_all

lemma scan_lines_find:
  "\<forall>(a, b, c) \<in> set ls. a < length sq \<and> b < length sq \<and> c < length sq \<Longrightarrow>
   scan_lines sq ls =
     (case find (complete_line sq) ls of
        None \<Rightarrow> None
      | Some (a, b, c) \<Rightarrow> Some \<lparr>winner = sq ! a, line = [a, b, c]\<rparr>)"
proof (induction ls)
  case Nil
  then show ?case by simp
next
  case (Cons t ls)
  obtain a b c where t: "t = (a, b, c)" by (cases t)
  from Cons.prems t have in_range: "a < length sq" "b < length sq" "c < length sq"
    by auto
  from Cons.prems have rest: "\<forall>(a, b, c) \<in> set ls. a < length sq \<and> b < length sq \<and> c < length sq"
    by simp
  have test: "(truthy (js_get sq a) \<and> js_get sq a = js_get sq b \<and> js_get sq a = js_get sq c)
      = complete_line sq t"
    using in_range by (auto simp: t complete_line_def js_get_def truthy_iff)
  show ?case
    using Cons.IH [OF rest] in_range test by (simp add: t js_get_def del: truthy.simps)
qed

lemma scan_lines_truthy: "scan_lines sq ls = Some w \<Longrightarrow> truthy (winner w)"
  by (induction sq ls rule: scan_lines.induct) (auto split: if_splits)

lemma calculateWinner_truthy: "calculateWinner sq = Some w \<Longrightarrow> truthy (winner w)"
  unfolding calculateWinner_def by (rule scan_lines_truthy)

lemma winner_of_truthy_iff: "truthy (winner_of cur) \<longleftrightarrow> calculateWinner (squares cur) \<noteq> None"
  by (auto simp: winner_of_def calculateWinner_truthy split: option.splits)

lemma current_Some: "currentStep s < length (history s) \<Longrightarrow> current s = Some (history s ! currentStep s)"
  by (simp add: current_def)

lemma xIsNext_turn_owner: "(if xIsNext s then MarkX else MarkO) = turn_owner s"
  by (simp add: xIsNext_def turn_owner_def even_iff_mod_2_eq_zero)

lemma handleSquareClick_accept:
  assumes "currentStep s < length (history s)"
    and "calculateWinner (squares (history s ! currentStep s)) = None"
    and "\<not> truthy (js_get (squares (history s ! currentStep s)) index)"
  shows "handleSquareClick s index =
     Inr \<lparr>history = take (Suc (currentStep s)) (history s) @
             [\<lparr>squares = js_set (squares (history s ! currentStep s)) index (Str (turn_owner s)),
               lastMove = Some index\<rparr>],
          currentStep = Suc (currentStep s)\<rparr>"
proof -
  have len: "length (take (Suc (currentStep s)) (history s)) = Suc (currentStep s)"
    using assms(1) by simp
  show ?thesis
    using assms len
    by (simp add: handleSquareClick_def current_Some winner_of_truthy_iff xIsNext_turn_owner
        Let_def del: truthy.simps)
qed

lemma handleSquareClick_reject:
  assumes "currentStep s < length (history s)"
    and "calculateWinner (squares (history s ! currentStep s)) \<noteq> None \<or>
         truthy (js_get (squares (history s ! currentStep s)) index)"
  shows "handleSquareClick s index = Inr s"
  using assms
  by (auto simp: handleSquareClick_def current_Some winner_of_truthy_iff simp del: truthy.simps)


lemma list_all_take: "list_all P xs \<Longrightarrow> list_all P (take n xs)"
  by (auto simp: list_all_iff dest: in_set_takeD)

lemma current_SomeD:
  "current s = Some cur \<Longrightarrow> currentStep s < length (history s) \<and> cur = history s ! currentStep s"
  by (auto simp: current_def split: if_splits)

lemma winner_of_Some: "calculateWinner (squares cur) = Some w \<Longrightarrow> winner_of cur = winner w"
  by (simp add: winner_of_def)

lemma wf_board_full_iff:
  assumes "wf_board b"
  shows "list_all (\<lambda>c. c \<noteq> Null) b \<longleftrightarrow> board_full b"
proof -
  have len: "length b = 9" and nou: "\<forall>i<9. b ! i \<noteq> Undefined"
    using assms by (simp_all add: wf_board_def list_all_length)
  have "\<And>i. i < 9 \<Longrightarrow> (b ! i \<noteq> Null) = truthy (b ! i)"
  proof -
    fix i :: nat assume "i < 9"
    with nou have "b ! i \<noteq> Undefined" by simp
    then show "(b ! i \<noteq> Null) = truthy (b ! i)" by (cases "b ! i") simp_all
  qed
  then show ?thesis
    by (simp add: list_all_length len board_full_def del: truthy.simps)
qed

section \<open>The win detector\<close>

text \<open>
  Claim C1. On a board of nine cells, \<open>calculateWinner\<close> returns what a search through
  the eight triples [0,1,2], [3,4,5], [6,7,8], [0,3,6], [1,4,7], [2,5,8], [0,4,8],
  [2,4,6], in this order, finds first: for the first triple whose three cells hold the
  same mark, that cell value and the triple's indices; and \<open>None\<close> when no triple is
  complete.
\<close>

theorem calculateWinner_first_complete_line:
  assumes "length sq = 9"
  shows "calculateWinner sq =
     (case find (complete_line sq)
             [(0, 1, 2), (3, 4, 5), (6, 7, 8), (0, 3, 6), (1, 4, 7), (2, 5, 8), (0, 4, 8), (2, 4, 6)] of
        None \<Rightarrow> None
      | Some (a, b, c) \<Rightarrow> Some \<lparr>winner = sq ! a, line = [a, b, c]\<rparr>)"
  unfolding calculateWinner_def lines_def
  by (rule scan_lines_find) (simp add: assms)

theorem calculateWinner_first_complete_line_witness:
  "length [Str MarkO, Null, Str MarkX, Str MarkO, Str MarkX, Null, Str MarkX, Null, Str MarkO] = 9 \<and>
   calculateWinner [Str MarkO, Null, Str MarkX, Str MarkO, Str MarkX, Null, Str MarkX, Null, Str MarkO]
     = Some \<lparr>winner = Str MarkX, line = [2, 4, 6]\<rparr>"
  using calculateWinner_first_complete_line
    [of "[Str MarkO, Null, Str MarkX, Str MarkO, Str MarkX, Null, Str MarkX, Null, Str MarkO]"]
  by (simp add: complete_line_def)

section \<open>Placing a mark\<close>

text \<open>
  Claim C2. In a state whose cursor \<open>k\<close> addresses the snapshot \<open>cur\<close>, when \<open>cur\<close> has
  no winner and cell \<open>index\<close> of its board is empty, \<open>handleSquareClick\<close> returns a
  state whose history is the old history cut to its entries 0..k followed by one new
  snapshot with \<open>lastMove = index\<close>, and whose cursor is the last index of that
  history. The new history has \<open>k + 2\<close> entries, the entries 0..k are the old ones, and
  whatever the old history held beyond \<open>k\<close> is gone. (The index need not be below 9 for
  this.)
\<close>

theorem placeMark_truncates_and_appends:
  assumes "current s = Some cur"
    and "calculateWinner (squares cur) = None"
    and "\<not> truthy (js_get (squares cur) index)"
  shows "\<exists>s' snap.
     handleSquareClick s index = Inr s' \<and>
     history s' = take (currentStep s + 1) (history s) @ [snap] \<and>
     lastMove snap = Some index \<and>
     currentStep s' = length (history s') - 1 \<and>
     length (history s') = currentStep s + 2 \<and>
     (\<forall>j \<le> currentStep s. history s' ! j = history s ! j)"
proof -
  let ?k = "currentStep s"
  let ?snap = "\<lparr>squares = js_set (squares (history s ! ?k)) index (Str (turn_owner s)),
               lastMove = Some index\<rparr>"
  let ?s' = "\<lparr>history = take (Suc ?k) (history s) @ [?snap], currentStep = Suc ?k\<rparr>"
  from assms(1) have k: "?k < length (history s)" and cur: "cur = history s ! ?k"
    by (simp_all add: current_SomeD)
  have result: "handleSquareClick s index = Inr ?s'"
    using k assms(2,3) unfolding cur by (rule handleSquareClick_accept)
  have len: "length (take (Suc ?k) (history s)) = Suc ?k"
    using k by simp
  have kept: "\<forall>j \<le> ?k. history ?s' ! j = history s ! j"
    using len by (simp add: nth_append)
  show ?thesis
    using result len kept by (intro exI [of _ ?s'] exI [of _ ?snap]) simp
qed

theorem placeMark_truncates_and_appends_witness:
  "current example_mid = Some (history example_mid ! 1) \<and>
   calculateWinner (squares (history example_mid ! 1)) = None \<and>
   \<not> truthy (js_get (squares (history example_mid ! 1)) 8) \<and>
   (\<exists>s' snap.
      handleSquareClick example_mid 8 = Inr s' \<and>
      history s' = take 2 (history example_mid) @ [snap] \<and>
      lastMove snap = Some 8 \<and> currentStep s' = 2 \<and> length (history s') = 3)"
proof -
  have c: "current example_mid = Some (history example_mid ! 1)"
    by (simp add: example_mid_def current_def)
  have w: "calculateWinner (squares (history example_mid ! 1)) = None"
    by (simp add: example_mid_def calculateWinner_def lines_def js_get_def)
  have e: "\<not> truthy (js_get (squares (history example_mid ! 1)) 8)"
    by (simp add: example_mid_def js_get_def)
  have k: "currentStep example_mid = 1" by (simp add: example_mid_def)
  have two: "currentStep example_mid + 1 = 2" and three: "currentStep example_mid + 2 = 3"
    by (simp_all add: k)
  have "\<exists>s' snap.
      handleSquareClick example_mid 8 = Inr s' \<and>
      history s' = take 2 (history example_mid) @ [snap] \<and>
      lastMove snap = Some 8 \<and> currentStep s' = 2 \<and> length (history s') = 3"
    using placeMark_truncates_and_appends [OF c w e] unfolding two three by fastforce
  with c w e show ?thesis by blast
qed

text \<open>
  Claim C3. In a state whose cursor addresses the snapshot \<open>cur\<close>, when \<open>cur\<close> has a
  winner or cell \<open>index\<close> of its board holds a mark, \<open>handleSquareClick\<close> returns the
  state it was given: the history, every board in it and the cursor are unchanged, and
  the result is not an error.
\<close>

theorem illegal_placeMark_is_noop:
  assumes "current s = Some cur"
    and "calculateWinner (squares cur) \<noteq> None \<or> truthy (js_get (squares cur) index)"
  shows "handleSquareClick s index = Inr s"
proof -
  from assms(1) have k: "currentStep s < length (history s)"
    and cur: "cur = history s ! currentStep s"
    by (simp_all add: current_SomeD)
  from k assms(2) show ?thesis
    unfolding cur by (rule handleSquareClick_reject)
qed

theorem illegal_placeMark_is_noop_witness:
  "current example_won = Some (history example_won ! 5) \<and>
   calculateWinner (squares (history example_won ! 5)) \<noteq> None \<and>
   handleSquareClick example_won 8 = Inr example_won \<and>
   current example_mid = Some (history example_mid ! 1) \<and>
   truthy (js_get (squares (history example_mid ! 1)) 0) \<and>
   handleSquareClick example_mid 0 = Inr example_mid"
proof -
  have c1: "current example_won = Some (history example_won ! 5)"
    by (simp add: example_won_def current_def)
  have w1: "calculateWinner (squares (history example_won ! 5)) \<noteq> None"
    by (simp add: example_won_def calculateWinner_def lines_def js_get_def)
  have c2: "current example_mid = Some (history example_mid ! 1)"
    by (simp add: example_mid_def current_def)
  have t2: "truthy (js_get (squares (history example_mid ! 1)) 0)"
    by (simp add: example_mid_def js_get_def)
  from w1 have "handleSquareClick example_won 8 = Inr example_won"
    by (intro illegal_placeMark_is_noop [OF c1]) simp
  moreover from t2 have "handleSquareClick example_mid 0 = Inr example_mid"
    by (intro illegal_placeMark_is_noop [OF c2]) simp
  ultimately show ?thesis using c1 w1 c2 t2 by blast
qed

text \<open>
  Claim C6. The player to move is X exactly when the cursor is even. In a state whose
  cursor addresses the snapshot \<open>cur\<close>, a click on a cell \<open>index\<close> of the board that
  is accepted (no winner, cell empty) makes current a snapshot whose board is the board
  of \<open>cur\<close> with cell \<open>index\<close> set to X when the old cursor is even and to O when it is
  odd, all other cells as before. In particular: X at 0, then \<open>jumpTo 0\<close>, then a click
  at 4 places X again, and leaves a history of two snapshots whose second board holds
  only that X at index 4.
\<close>

theorem placeMark_writes_turn_owner:
  assumes "current s = Some cur"
    and "index < length (squares cur)"
    and "calculateWinner (squares cur) = None"
    and "\<not> truthy (squares cur ! index)"
  shows "(xIsNext s \<longleftrightarrow> even (currentStep s)) \<and>
     (\<exists>s'. handleSquareClick s index = Inr s' \<and>
        current s' =
          Some \<lparr>squares = (squares cur)[index := Str (if even (currentStep s) then MarkX else MarkO)],
                lastMove = Some index\<rparr>) \<and>
     (case handleSquareClick initial 0 of
        Inl e \<Rightarrow> Inl e
      | Inr s1 \<Rightarrow> handleSquareClick (jumpTo s1 0) 4) =
       Inr \<lparr>history =
              [\<lparr>squares = [Null, Null, Null, Null, Null, Null, Null, Null, Null], lastMove = None\<rparr>,
               \<lparr>squares = [Null, Null, Null, Null, Str MarkX, Null, Null, Null, Null], lastMove = Some 4\<rparr>],
            currentStep = 1\<rparr>"
proof -
  have parity: "xIsNext s \<longleftrightarrow> even (currentStep s)"
    by (simp add: xIsNext_def even_iff_mod_2_eq_zero)
  from assms(1) have k: "currentStep s < length (history s)" and cur: "cur = history s ! currentStep s"
    by (auto simp: current_def split: if_splits)
  let ?s' = "\<lparr>history = take (Suc (currentStep s)) (history s) @
             [\<lparr>squares = js_set (squares cur) index (Str (turn_owner s)), lastMove = Some index\<rparr>],
          currentStep = Suc (currentStep s)\<rparr>"
  have "handleSquareClick s index = Inr ?s'"
    using handleSquareClick_accept [OF k, of index] assms(2-4) by (simp add: cur js_get_def)
  moreover have "current ?s' =
      Some \<lparr>squares = (squares cur)[index := Str (if even (currentStep s) then MarkX else MarkO)],
            lastMove = Some index\<rparr>"
    using k assms(2) by (simp add: current_def nth_append js_set_def turn_owner_def)
  ultimately have step: "\<exists>s'. handleSquareClick s index = Inr s' \<and>
        current s' =
          Some \<lparr>squares = (squares cur)[index := Str (if even (currentStep s) then MarkX else MarkO)],
                lastMove = Some index\<rparr>"
    by blast
  have scenario: "(case handleSquareClick initial 0 of
        Inl e \<Rightarrow> Inl e
      | Inr s1 \<Rightarrow> handleSquareClick (jumpTo s1 0) 4) =
       Inr \<lparr>history =
              [\<lparr>squares = [Null, Null, Null, Null, Null, Null, Null, Null, Null], lastMove = None\<rparr>,
               \<lparr>squares = [Null, Null, Null, Null, Str MarkX, Null, Null, Null, Null], lastMove = Some 4\<rparr>],
            currentStep = 1\<rparr>"
    by (simp add: eval_defs eval_nat_numeral)
  from parity step scenario show ?thesis by blast
qed

theorem placeMark_writes_turn_owner_witness:
  "current example_mid = Some (history example_mid ! 1) \<and>
   8 < length (squares (history example_mid ! 1)) \<and>
   calculateWinner (squares (history example_mid ! 1)) = None \<and>
   \<not> truthy (squares (history example_mid ! 1) ! 8) \<and>
   (\<exists>s'. handleSquareClick example_mid 8 = Inr s' \<and>
      current s' =
        Some \<lparr>squares = [Str MarkX, Null, Null, Null, Null, Null, Null, Null, Str MarkO],
              lastMove = Some 8\<rparr>)"
proof -
  have c: "current example_mid = Some (history example_mid ! 1)"
    by (simp add: example_mid_def current_def)
  have i: "8 < length (squares (history example_mid ! 1))"
    by (simp add: example_mid_def)
  have w: "calculateWinner (squares (history example_mid ! 1)) = None"
    by (simp add: example_mid_def calculateWinner_def lines_def js_get_def)
  have e: "\<not> truthy (squares (history example_mid ! 1) ! 8)"
    by (simp add: example_mid_def)
  have "\<exists>s'. handleSquareClick example_mid 8 = Inr s' \<and>
      current s' =
        Some \<lparr>squares = [Str MarkX, Null, Null, Null, Null, Null, Null, Null, Str MarkO],
              lastMove = Some 8\<rparr>"
    using placeMark_writes_turn_owner [OF c i w e] by (simp add: example_mid_def)
  with c i w e show ?thesis by blast
qed

section \<open>Status line\<close>

text \<open>
  Claim C4. In a state whose cursor addresses a snapshot \<open>cur\<close> with a board of the
  data model, the status is \<^verbatim>\<open>Winner: m\<close> when \<open>calculateWinner\<close> finds a winner
  \<open>m\<close> (which is X or O) on that board; otherwise \<^verbatim>\<open>Draw! No moves left.\<close> when all
  nine cells hold a mark; otherwise \<^verbatim>\<open>Next Player: p\<close> for the turn owner \<open>p\<close>.
  The draw text is returned exactly when there is no winner and the board is full.
\<close>

theorem statusText_cases:
  assumes "current s = Some cur" and "wf_board (squares cur)"
  shows "statusText s =
      Inr (case calculateWinner (squares cur) of
             Some w \<Rightarrow> ''Winner: '' @ to_string (winner w)
           | None \<Rightarrow>
               if board_full (squares cur) then ''Draw! No moves left.''
               else ''Next Player: '' @ to_string (Str (turn_owner s))) \<and>
     (\<forall>w. calculateWinner (squares cur) = Some w \<longrightarrow>
        winner w = Str MarkX \<or> winner w = Str MarkO) \<and>
     (statusText s = Inr ''Draw! No moves left.'' \<longleftrightarrow>
        calculateWinner (squares cur) = None \<and> board_full (squares cur))"
proof -
  have next_name: "(if xIsNext s then ''X'' else ''O'') = to_string (Str (turn_owner s))"
    by (simp add: xIsNext_def turn_owner_def even_iff_mod_2_eq_zero)
  have status: "statusText s =
      Inr (case calculateWinner (squares cur) of
             Some w \<Rightarrow> ''Winner: '' @ to_string (winner w)
           | None \<Rightarrow>
               if board_full (squares cur) then ''Draw! No moves left.''
               else ''Next Player: '' @ to_string (Str (turn_owner s)))"
  proof (cases "calculateWinner (squares cur)")
    case None
    then have "\<not> truthy (winner_of cur)" by (simp add: winner_of_truthy_iff)
    then show ?thesis
      using None assms next_name
      by (simp add: statusText_def isDraw_def wf_board_full_iff del: truthy.simps to_string.simps)
  next
    case (Some w)
    then have "truthy (winner_of cur)" by (simp add: winner_of_truthy_iff)
    then show ?thesis
      using Some assms by (simp add: statusText_def winner_of_Some del: truthy.simps)
  qed
  have marks: "\<forall>w. calculateWinner (squares cur) = Some w \<longrightarrow>
        winner w = Str MarkX \<or> winner w = Str MarkO"
    using calculateWinner_truthy truthy_iff by blast
  have draw: "statusText s = Inr ''Draw! No moves left.'' \<longleftrightarrow>
        calculateWinner (squares cur) = None \<and> board_full (squares cur)"
    unfolding status by (simp split: option.splits)
  from status marks draw show ?thesis by blast
qed

theorem statusText_cases_witness:
  "current example_won = Some (history example_won ! 5) \<and>
   wf_board (squares (history example_won ! 5)) \<and>
   statusText example_won = Inr ''Winner: X''"
proof -
  have c: "current example_won = Some (history example_won ! 5)"
    by (simp add: example_won_def current_def)
  have w: "wf_board (squares (history example_won ! 5))"
    by (simp add: example_won_def wf_board_def)
  have cw: "calculateWinner (squares (history example_won ! 5)) =
      Some \<lparr>winner = Str MarkX, line = [0, 1, 2]\<rparr>"
    by (simp add: example_won_def calculateWinner_def lines_def js_get_def)
  from statusText_cases [OF c w] have "statusText example_won = Inr ''Winner: X''"
    by (simp add: cw)
  with c w show ?thesis by simp
qed

section \<open>Time travel and restart\<close>

text \<open>
  Claim C7. For a step below the length of the history, \<open>jumpTo\<close> sets the cursor to
  that step and leaves the history as it is, so that the current snapshot becomes the
  one stored at that step. A second \<open>jumpTo\<close> with the same step changes nothing: the
  state, and with it the turn, the current snapshot and the status, are the same as
  after the first.
\<close>

theorem jumpTo_moves_cursor_only:
  assumes "step < length (history s)"
  shows "currentStep (jumpTo s step) = step \<and>
     history (jumpTo s step) = history s \<and>
     current (jumpTo s step) = Some (history s ! step) \<and>
     jumpTo (jumpTo s step) step = jumpTo s step \<and>
     xIsNext (jumpTo (jumpTo s step) step) = xIsNext (jumpTo s step) \<and>
     current (jumpTo (jumpTo s step) step) = current (jumpTo s step) \<and>
     statusText (jumpTo (jumpTo s step) step) = statusText (jumpTo s step)"
  using assms by (simp add: jumpTo_def current_def)

theorem jumpTo_moves_cursor_only_witness:
  "2 < length (history example_mid) \<and>
   jumpTo example_mid 2 = example_mid\<lparr>currentStep := 2\<rparr> \<and>
   jumpTo (jumpTo example_mid 2) 2 = jumpTo example_mid 2 \<and>
   current (jumpTo example_mid 2) =
     Some \<lparr>squares = [Str MarkX, Null, Null, Null, Str MarkO, Null, Null, Null, Null],
           lastMove = Some 4\<rparr>"
proof -
  have h: "2 < length (history example_mid)" by (simp add: example_mid_def)
  from jumpTo_moves_cursor_only [OF h] h show ?thesis
    by (simp add: example_mid_def jumpTo_def)
qed

text \<open>
  Claim C8. Whatever the state before, \<open>restart\<close> yields the state whose history is the
  single snapshot with nine empty cells and no last move, and whose cursor is 0: the
  initial state.
\<close>

theorem restart_fresh_game:
  "restart s =
     \<lparr>history = [\<lparr>squares = [Null, Null, Null, Null, Null, Null, Null, Null, Null], lastMove = None\<rparr>],
      currentStep = 0\<rparr> \<and>
   length (history (restart s)) = 1 \<and> restart s = initial"
  by (simp add: restart_def initial_def eval_nat_numeral)

section \<open>Arguments out of range\<close>




section \<open>Reachable states\<close>

lemma list_all_upt: "list_all P [a ..< b] \<longleftrightarrow> (\<forall>i. a \<le> i \<and> i < b \<longrightarrow> P i)"
  by (auto simp: list_all_iff)

lemma run_invariant:
  assumes step: "\<And>s it s'. P s \<Longrightarrow> dispatch s it = Some s' \<Longrightarrow> P s'"
  shows "P s0 \<Longrightarrow> run s0 its = Some s \<Longrightarrow> P s"
proof (induction its arbitrary: s0)
  case Nil
  then show ?case by simp
next
  case (Cons it its)
  from Cons.prems(2) obtain s1 where d: "dispatch s0 it = Some s1" and r: "run s1 its = Some s"
    by (auto split: option.splits)
  from step [OF Cons.prems(1) d] have "P s1" .
  then show ?case using r by (rule Cons.IH)
qed

lemma wf_board_nth:
  "wf_board b \<Longrightarrow> i < 9 \<Longrightarrow> \<not> truthy (js_get b i) \<Longrightarrow> i < length b \<and> b ! i = Null"
  by (cases "b ! i") (auto simp: wf_board_def js_get_def list_all_length)

lemma wf_board_update: "wf_board b \<Longrightarrow> wf_board (b[i := Str m])"
  by (auto simp: wf_board_def list_all_iff dest: set_update_subset_insert [THEN subsetD])

lemma wf_state_current:
  "wf_state s \<Longrightarrow> currentStep s < length (history s) \<and> wf_board (squares (history s ! currentStep s))"
  by (simp add: wf_state_def cursor_ok_def list_all_length)

text \<open>What one intent of the view does to a well-formed state.\<close>

lemma dispatch_cases:
  assumes "wf_state s" and "dispatch s it = Some s'"
  obtains (unchanged) "s' = s"
  | (jumped) k where "k < length (history s)" and "s' = jumpTo s k"
  | (restarted) "s' = restart s"
  | (placed) i where "i < length (squares (history s ! currentStep s))"
      and "squares (history s ! currentStep s) ! i = Null"
      and "s' = \<lparr>history = take (Suc (currentStep s)) (history s) @
                   [\<lparr>squares = (squares (history s ! currentStep s))[i := Str (turn_owner s)],
                     lastMove = Some i\<rparr>],
                 currentStep = Suc (currentStep s)\<rparr>"
proof (cases it)
  case (PlaceMark i)
  let ?b = "squares (history s ! currentStep s)"
  from assms(1) have k: "currentStep s < length (history s)" and wb: "wf_board ?b"
    by (simp_all add: wf_state_current)
  from assms(2) PlaceMark have i9: "i < 9" and h: "handleSquareClick s i = Inr s'"
    by (auto split: if_splits sum.splits)
  show ?thesis
  proof (cases "calculateWinner ?b \<noteq> None \<or> truthy (js_get ?b i)")
    case True
    with k have "handleSquareClick s i = Inr s" by (rule handleSquareClick_reject)
    with h have "s' = s" by simp
    then show ?thesis by (rule unchanged)
  next
    case False
    then have nw: "calculateWinner ?b = None" and ne: "\<not> truthy (js_get ?b i)" by simp_all
    from wf_board_nth [OF wb i9 ne] have il: "i < length ?b" and nul: "?b ! i = Null" by simp_all
    from handleSquareClick_accept [OF k nw ne] h il
    have "s' = \<lparr>history = take (Suc (currentStep s)) (history s) @
                   [\<lparr>squares = ?b[i := Str (turn_owner s)], lastMove = Some i\<rparr>],
                 currentStep = Suc (currentStep s)\<rparr>"
      by (simp add: js_set_def)
    with il nul show ?thesis by (rule placed)
  qed
next
  case (JumpTo k)
  with assms(2) have "k < length (history s)" and "s' = jumpTo s k"
    by (auto split: if_splits)
  then show ?thesis by (rule jumped)
next
  case Restart
  with assms(2) have "s' = restart s" by simp
  then show ?thesis by (rule restarted)
qed

lemma wf_board_empty: "wf_board (replicate 9 Null)"
  by (simp add: wf_board_def list_all_iff)

lemma wf_state_initial: "wf_state initial"
  by (simp add: wf_state_def cursor_ok_def initial_def wf_board_empty)

lemma wf_state_dispatch:
  assumes "wf_state s" and "dispatch s it = Some s'"
  shows "wf_state s'"
  using assms
proof (cases rule: dispatch_cases)
  case unchanged
  with assms(1) show ?thesis by simp
next
  case (jumped k)
  with assms(1) show ?thesis by (simp add: wf_state_def cursor_ok_def jumpTo_def)
next
  case restarted
  then show ?thesis by (simp add: wf_state_def cursor_ok_def restart_def wf_board_empty)
next
  case (placed i)
  from assms(1) have k: "currentStep s < length (history s)"
    and wb: "wf_board (squares (history s ! currentStep s))"
    by (simp_all add: wf_state_current)
  from assms(1) have "list_all (\<lambda>sn. wf_board (squares sn)) (take (Suc (currentStep s)) (history s))"
    unfolding wf_state_def by (simp add: list_all_take)
  with k wb show ?thesis
    by (simp add: placed(3) wf_state_def cursor_ok_def wf_board_update)
qed

lemma dispatch_PlaceMark_defined:
  assumes "wf_state s" and "i < 9"
  shows "\<exists>s'. dispatch s (PlaceMark i) = Some s'"
proof -
  from assms(1) have k: "currentStep s < length (history s)" by (simp add: wf_state_current)
  then have "\<exists>s'. handleSquareClick s i = Inr s'"
    by (cases "calculateWinner (squares (history s ! currentStep s)) \<noteq> None \<or>
               truthy (js_get (squares (history s ! currentStep s)) i)")
      (simp_all add: handleSquareClick_reject handleSquareClick_accept)
  with assms(2) show ?thesis by auto
qed

lemma run_example_branch:
  "run initial [PlaceMark 0, PlaceMark 4, JumpTo 1, PlaceMark 8] = Some example_branch"
  by (simp add: eval_defs example_branch_def eval_nat_numeral)

subsection \<open>The history is a chain of single moves\<close>

lemma history_chain_iff:
  "history_chain h \<longleftrightarrow>
     h \<noteq> [] \<and> h ! 0 = \<lparr>squares = replicate 9 Null, lastMove = None\<rparr> \<and>
     (\<forall>i. 1 \<le> i \<and> i < length h \<longrightarrow> one_move (h ! (i - 1)) (h ! i))"
  by (simp add: history_chain_def list_all_upt)

lemma history_chain_initial: "history_chain (history initial)"
  by (simp add: history_chain_iff initial_def)

lemma one_move_placed:
  "i < length (squares prev) \<Longrightarrow> squares prev ! i = Null \<Longrightarrow>
   one_move prev \<lparr>squares = (squares prev)[i := Str m], lastMove = Some i\<rparr>"
  by (cases m) (simp_all add: one_move_def)

lemma history_chain_dispatch:
  assumes "wf_state s" and "history_chain (history s)" and "dispatch s it = Some s'"
  shows "history_chain (history s')"
  using assms(1,3)
proof (cases rule: dispatch_cases)
  case unchanged
  with assms(2) show ?thesis by simp
next
  case (jumped k)
  with assms(2) show ?thesis by (simp add: jumpTo_def)
next
  case restarted
  then show ?thesis by (simp add: history_chain_iff restart_def)
next
  case (placed i)
  let ?k = "currentStep s"
  let ?h = "history s"
  let ?new = "\<lparr>squares = (squares (?h ! ?k))[i := Str (turn_owner s)], lastMove = Some i\<rparr>"
  let ?h' = "take (Suc ?k) ?h @ [?new]"
  from assms(1) have k: "?k < length ?h" by (simp add: wf_state_current)
  have h': "history s' = ?h'" by (simp add: placed(3))
  have len: "length ?h' = ?k + 2" using k by simp
  have old: "?h' ! j = ?h ! j" if "j \<le> ?k" for j
    using that k by (simp add: nth_append)
  have new: "?h' ! Suc ?k = ?new"
    using k by (simp add: nth_append)
  from assms(2) have first: "?h ! 0 = \<lparr>squares = replicate 9 Null, lastMove = None\<rparr>"
    and links: "\<And>j. 1 \<le> j \<Longrightarrow> j < length ?h \<Longrightarrow> one_move (?h ! (j - 1)) (?h ! j)"
    by (simp_all add: history_chain_iff)
  have "one_move (?h' ! (j - 1)) (?h' ! j)" if j: "1 \<le> j" "j < length ?h'" for j
  proof (cases "j \<le> ?k")
    case True
    with k have jl: "j < length ?h" and jp: "j - 1 \<le> ?k" by simp_all
    from links [OF j(1) jl] show ?thesis
      unfolding old [OF True] old [OF jp] .
  next
    case False
    with j len have jk: "j = Suc ?k" by simp
    have "one_move (?h ! ?k) ?new"
      using placed(1,2) by (rule one_move_placed)
    then show ?thesis unfolding jk using old [of ?k] new by simp
  qed
  moreover have "?h' ! 0 = \<lparr>squares = replicate 9 Null, lastMove = None\<rparr>"
    using old [of 0] first by simp
  ultimately show ?thesis unfolding h' history_chain_iff by simp
qed


lemma chain_invariant:
  assumes "run initial its = Some s"
  shows "wf_state s \<and> history_chain (history s)"
proof (rule run_invariant [where P = "\<lambda>s. wf_state s \<and> history_chain (history s)", OF _ _ assms])
  show "wf_state initial \<and> history_chain (history initial)"
    by (simp add: wf_state_initial history_chain_initial)
next
  fix s it s'
  assume "wf_state s \<and> history_chain (history s)" and "dispatch s it = Some s'"
  then show "wf_state s' \<and> history_chain (history s')"
    by (blast intro: wf_state_dispatch history_chain_dispatch)
qed

lemma dispatch_history:
  assumes "wf_state s" and "dispatch s it = Some s'"
  shows "history s' = history s \<or>
     history s' = [\<lparr>squares = replicate 9 Null, lastMove = None\<rparr>] \<or>
     (\<exists>snap. history s' = take (currentStep s + 1) (history s) @ [snap])"
  using assms
proof (cases rule: dispatch_cases)
  case unchanged
  then show ?thesis by simp
next
  case (jumped k)
  then show ?thesis by (simp add: jumpTo_def)
next
  case restarted
  then show ?thesis by (simp add: restart_def)
next
  case (placed i)
  then show ?thesis by simp
qed

text \<open>
  Claim C9. In every state that a sequence of intents of the view reaches from the
  initial state, the history is not empty, its entry 0 is the empty board with no last
  move, and every later entry \<open>i\<close> differs from entry \<open>i - 1\<close> in one cell only, the
  cell \<open>lastMove\<close> of entry \<open>i\<close>, which was empty and now holds a mark. No intent
  changes a stored snapshot: the history after it is the old history, or the fresh
  single-entry history of a restart, or the old entries up to the cursor followed by
  one new snapshot.
\<close>

theorem reachable_history_is_move_chain:
  assumes "run initial its = Some s"
  shows "history s \<noteq> [] \<and>
     history s ! 0 =
       \<lparr>squares = [Null, Null, Null, Null, Null, Null, Null, Null, Null], lastMove = None\<rparr> \<and>
     (\<forall>i. 1 \<le> i \<and> i < length (history s) \<longrightarrow> one_move (history s ! (i - 1)) (history s ! i)) \<and>
     (\<forall>it s'. dispatch s it = Some s' \<longrightarrow>
        history s' = history s \<or>
        history s' =
          [\<lparr>squares = [Null, Null, Null, Null, Null, Null, Null, Null, Null], lastMove = None\<rparr>] \<or>
        (\<exists>snap. history s' = take (currentStep s + 1) (history s) @ [snap]))"
proof -
  from assms have wf: "wf_state s" and chain: "history_chain (history s)"
    by (simp_all add: chain_invariant)
  have nine: "replicate 9 Null = [Null, Null, Null, Null, Null, Null, Null, Null, Null]"
    by (simp add: eval_nat_numeral)
  from chain have "history s \<noteq> []"
    and "history s ! 0 =
       \<lparr>squares = [Null, Null, Null, Null, Null, Null, Null, Null, Null], lastMove = None\<rparr>"
    and "\<forall>i. 1 \<le> i \<and> i < length (history s) \<longrightarrow> one_move (history s ! (i - 1)) (history s ! i)"
    unfolding history_chain_iff nine by simp_all
  moreover have "\<forall>it s'. dispatch s it = Some s' \<longrightarrow>
        history s' = history s \<or>
        history s' =
          [\<lparr>squares = [Null, Null, Null, Null, Null, Null, Null, Null, Null], lastMove = None\<rparr>] \<or>
        (\<exists>snap. history s' = take (currentStep s + 1) (history s) @ [snap])"
    using dispatch_history [OF wf] unfolding nine by blast
  ultimately show ?thesis by blast
qed

theorem reachable_history_is_move_chain_witness:
  "run initial [PlaceMark 0, PlaceMark 4, JumpTo 1, PlaceMark 8] = Some example_branch \<and>
   length (history example_branch) = 3 \<and>
   one_move (history example_branch ! 0) (history example_branch ! 1) \<and>
   one_move (history example_branch ! 1) (history example_branch ! 2)"
proof -
  have l: "length (history example_branch) = 3" by (simp add: example_branch_def)
  from reachable_history_is_move_chain [OF run_example_branch]
  have "\<forall>i. 1 \<le> i \<and> i < 3 \<longrightarrow> one_move (history example_branch ! (i - 1)) (history example_branch ! i)"
    unfolding l by blast
  from this [rule_format, of 1] this [rule_format, of 2] run_example_branch l
  show ?thesis by simp
qed

subsection \<open>Mark counts\<close>

lemma filter_update_count:
  "i < length xs \<Longrightarrow> \<not> P (xs ! i) \<Longrightarrow>
   length (filter P (xs[i := v])) = length (filter P xs) + (if P v then 1 else 0)"
proof (induction xs arbitrary: i)
  case Nil
  then show ?case by simp
next
  case (Cons x xs)
  then show ?case by (cases i) auto
qed

lemma count_mark_placed:
  "i < length b \<Longrightarrow> b ! i = Null \<Longrightarrow>
   count_mark m (b[i := Str m']) = count_mark m b + (if m = m' then 1 else 0)"
  unfolding count_mark_def by (subst filter_update_count) auto

lemma count_filled_marks: "count_filled b = count_mark MarkX b + count_mark MarkO b"
  unfolding count_filled_def count_mark_def
  by (induction b) (auto simp: truthy_iff simp del: truthy.simps)

lemma balanced_iff:
  "balanced h \<longleftrightarrow>
     (\<forall>k < length h. count_mark MarkX (squares (h ! k)) = (k + 1) div 2 \<and>
                      count_mark MarkO (squares (h ! k)) = k div 2)"
  by (simp add: balanced_def list_all_upt)

lemma balanced_initial: "balanced (history initial)"
  by (simp add: balanced_iff initial_def count_mark_def)

lemma balanced_dispatch:
  assumes "wf_state s" and "balanced (history s)" and "dispatch s it = Some s'"
  shows "balanced (history s')"
  using assms(1,3)
proof (cases rule: dispatch_cases)
  case unchanged
  with assms(2) show ?thesis by simp
next
  case (jumped k)
  with assms(2) show ?thesis by (simp add: jumpTo_def)
next
  case restarted
  then show ?thesis by (simp add: balanced_iff restart_def count_mark_def)
next
  case (placed i)
  let ?k = "currentStep s"
  let ?h = "history s"
  let ?b = "squares (?h ! ?k)"
  let ?new = "\<lparr>squares = ?b[i := Str (turn_owner s)], lastMove = Some i\<rparr>"
  let ?h' = "take (Suc ?k) ?h @ [?new]"
  from assms(1) have k: "?k < length ?h" by (simp add: wf_state_current)
  have h': "history s' = ?h'" by (simp add: placed(3))
  from assms(2) have counts:
    "\<And>j. j < length ?h \<Longrightarrow> count_mark MarkX (squares (?h ! j)) = (j + 1) div 2 \<and>
                             count_mark MarkO (squares (?h ! j)) = j div 2"
    by (simp add: balanced_iff)
  have "count_mark MarkX (squares (?h' ! j)) = (j + 1) div 2 \<and>
        count_mark MarkO (squares (?h' ! j)) = j div 2" if j: "j < length ?h'" for j
  proof (cases "j \<le> ?k")
    case True
    with k have "?h' ! j = ?h ! j" and "j < length ?h" by (simp_all add: nth_append)
    with counts show ?thesis by simp
  next
    case False
    with j k have jk: "j = Suc ?k" by simp
    have new: "?h' ! Suc ?k = ?new" using k by (simp add: nth_append)
    from counts [OF k] have cx: "count_mark MarkX ?b = (?k + 1) div 2"
      and co: "count_mark MarkO ?b = ?k div 2" by simp_all
    show ?thesis
    proof (cases "even ?k")
      case True
      then have "turn_owner s = MarkX" by (simp add: turn_owner_def)
      with placed(1,2) cx co True show ?thesis
        unfolding jk new by (simp add: count_mark_placed)
    next
      case False
      then have "turn_owner s = MarkO" by (simp add: turn_owner_def)
      with placed(1,2) cx co False show ?thesis
        unfolding jk new by (simp add: count_mark_placed)
    qed
  qed
  then show ?thesis unfolding h' balanced_iff by blast
qed

lemma balanced_invariant:
  assumes "run initial its = Some s"
  shows "wf_state s \<and> balanced (history s)"
proof (rule run_invariant [where P = "\<lambda>s. wf_state s \<and> balanced (history s)", OF _ _ assms])
  show "wf_state initial \<and> balanced (history initial)"
    by (simp add: wf_state_initial balanced_initial)
next
  fix s it s'
  assume "wf_state s \<and> balanced (history s)" and "dispatch s it = Some s'"
  then show "wf_state s' \<and> balanced (history s')"
    by (blast intro: wf_state_dispatch balanced_dispatch)
qed

text \<open>
  Claim C10. In every state that a sequence of intents of the view reaches from the
  initial state, the board stored at index \<open>k\<close> of the history holds exactly \<open>k\<close>
  marks, \<open>(k + 1) div 2\<close> of them X and \<open>k div 2\<close> of them O; so the number of X is
  the number of O or one more.
\<close>

theorem reachable_mark_counts:
  assumes "run initial its = Some s" and "k < length (history s)"
  shows "count_filled (squares (history s ! k)) = k \<and>
     count_mark MarkX (squares (history s ! k)) = (k + 1) div 2 \<and>
     count_mark MarkO (squares (history s ! k)) = k div 2 \<and>
     count_mark MarkO (squares (history s ! k)) \<le> count_mark MarkX (squares (history s ! k)) \<and>
     count_mark MarkX (squares (history s ! k)) \<le> count_mark MarkO (squares (history s ! k)) + 1"
proof -
  from assms(1) have "balanced (history s)" by (simp add: balanced_invariant)
  with assms(2) have cx: "count_mark MarkX (squares (history s ! k)) = (k + 1) div 2"
    and co: "count_mark MarkO (squares (history s ! k)) = k div 2"
    by (simp_all add: balanced_iff)
  have "count_filled (squares (history s ! k)) = k"
    unfolding count_filled_marks cx co by arith
  with cx co show ?thesis by arith
qed

theorem reachable_mark_counts_witness:
  "run initial [PlaceMark 0, PlaceMark 4, JumpTo 1, PlaceMark 8] = Some example_branch \<and>
   2 < length (history example_branch) \<and>
   squares (history example_branch ! 2) =
     [Str MarkX, Null, Null, Null, Null, Null, Null, Null, Str MarkO] \<and>
   count_filled (squares (history example_branch ! 2)) = 2 \<and>
   count_mark MarkX (squares (history example_branch ! 2)) = 1 \<and>
   count_mark MarkO (squares (history example_branch ! 2)) = 1"
proof -
  have l: "2 < length (history example_branch)" by (simp add: example_branch_def)
  have b: "squares (history example_branch ! 2) =
     [Str MarkX, Null, Null, Null, Null, Null, Null, Null, Str MarkO]"
    by (simp add: example_branch_def)
  from reachable_mark_counts [OF run_example_branch l] run_example_branch l b
  show ?thesis by simp
qed

end
